theory Spec2Isabelle
  imports Main
begin

section \<open>Events and payloads\<close>

text \<open>
  The event types of \<^verbatim>\<open>EVENTS\<close> in \<^verbatim>\<open>src/samsara/streams/_Stream.js\<close> (lines 9-16):
  \<^verbatim>\<open>'start'\<close>, \<^verbatim>\<open>'update'\<close>, \<^verbatim>\<open>'end'\<close>, \<^verbatim>\<open>'set'\<close>, \<^verbatim>\<open>'lockBelow'\<close>, \<^verbatim>\<open>'unlockBelow'\<close>.
\<close>

datatype etype = START | UPDATE | END | SET | LOCK | UNLOCK

text \<open>
  A JavaScript value: \<open>None\<close> is \<^verbatim>\<open>undefined\<close> (the payload of an \<^verbatim>\<open>emit\<close> called with
  the type only, and the closure variable \<^verbatim>\<open>cache\<close> before its first assignment).
\<close>

type_synonym 'v jsval = "'v option"

text \<open>One call \<^verbatim>\<open>this.emit(type, data)\<close> on the Stream's output.\<close>

type_synonym 'v emitted = "etype \<times> 'v jsval"

text \<open>
  The constructor's argument \<^verbatim>\<open>triggers\<close>: an object with optional functions
  \<^verbatim>\<open>set\<close>, \<^verbatim>\<open>start\<close>, \<^verbatim>\<open>update\<close>, \<^verbatim>\<open>end\<close>. The object itself may be missing.
\<close>

record 'v triggers =
  trig_set :: "('v jsval \<Rightarrow> 'v jsval) option"
  trig_start :: "('v jsval \<Rightarrow> 'v jsval) option"
  trig_update :: "('v jsval \<Rightarrow> 'v jsval) option"
  trig_end :: "('v jsval \<Rightarrow> 'v jsval) option"

text \<open>
  \<^verbatim>\<open>if (triggers && triggers.start) data = triggers.start(data);\<close> and its three siblings.
  The functions are taken to be pure and to return.
\<close>

definition trig_for :: "'v triggers \<Rightarrow> etype \<Rightarrow> ('v jsval \<Rightarrow> 'v jsval) option" where
  "trig_for g t =
     (case t of SET \<Rightarrow> trig_set g | START \<Rightarrow> trig_start g
      | UPDATE \<Rightarrow> trig_update g | END \<Rightarrow> trig_end g | _ \<Rightarrow> None)"

definition transform :: "'v triggers option \<Rightarrow> etype \<Rightarrow> 'v jsval \<Rightarrow> 'v jsval" where
  "transform trg t d =
     (case trg of None \<Rightarrow> d
      | Some g \<Rightarrow> (case trig_for g t of None \<Rightarrow> d | Some f \<Rightarrow> f d))"

section \<open>The closure of createResolveStrategy\<close>

text \<open>
  The variables that \<^verbatim>\<open>createResolveStrategy\<close> (lines 116-248) closes over, and the object
  \<^verbatim>\<open>states\<close>. The counters are JavaScript numbers that only ever change by one; they are
  integers here. \<open>states_prev\<close> is the string \<^verbatim>\<open>states.prev\<close>: \<open>None\<close> is \<^verbatim>\<open>''\<close>.
  \<open>resolveCalls\<close> is a ghost field, not in the source: it counts the calls of
  \<^verbatim>\<open>resolve\<close>, and nothing reads it.
\<close>

record 'v rstate =
  hasTicked :: bool
  startCounter :: int
  hasSentLock :: bool
  hasReceived :: bool
  locked :: bool
  lockCounter :: int
  states_set :: bool
  states_start :: bool
  states_update :: bool
  states_end :: bool
  states_prev :: "etype option"
  cache :: "'v jsval"
  resolveCalls :: nat

definition init_rstate :: "'v rstate" where
  "init_rstate =
     \<lparr> hasTicked = False, startCounter = 0, hasSentLock = False, hasReceived = False,
       locked = False, lockCounter = 0,
       states_set = False, states_start = False, states_update = False, states_end = False,
       states_prev = None, cache = None, resolveCalls = 0 \<rparr>"

subsection \<open>resolve (lines 136-182)\<close>

text \<open>Lines 137-140: the Unlock that answers a Lock sent earlier.\<close>

definition resolve_unlock :: "'v rstate \<Rightarrow> 'v rstate \<times> 'v emitted list" where
  "resolve_unlock r =
     (if hasSentLock r then (r\<lparr>hasSentLock := False\<rparr>, [(UNLOCK, None)]) else (r, []))"

text \<open>Lines 142-155: the first \<^verbatim>\<open>if / else if / else if\<close> chain.\<close>

definition resolve_first :: "'v jsval \<Rightarrow> 'v rstate \<Rightarrow> 'v rstate \<times> 'v emitted list" where
  "resolve_first d r =
     (if startCounter r = 0 \<and> states_update r \<and> states_end r then
        (r\<lparr>states_prev := Some UPDATE, states_update := False\<rparr>, [(UPDATE, d)])
      else if states_prev r = Some START \<and> states_set r then
        (r\<lparr>states_set := False\<rparr>, [])
      else if states_prev r \<noteq> Some UPDATE \<and> states_start r \<and> states_update r then
        (r\<lparr>states_prev := Some START\<rparr>, [(START, d)])
      else (r, []))"

text \<open>Lines 157-175: the second chain, a statement of its own after the first.\<close>

definition resolve_second :: "'v jsval \<Rightarrow> 'v rstate \<Rightarrow> 'v rstate \<times> 'v emitted list" where
  "resolve_second d r =
     (if states_update r \<or> (states_start r \<and> states_end r) then
        (r\<lparr>states_prev := Some UPDATE\<rparr>, [(UPDATE, d)])
      else if states_prev r \<noteq> Some UPDATE \<and> states_start r \<and> \<not> states_end r then
        (r\<lparr>states_prev := Some START\<rparr>, [(START, d)])
      else if startCounter r = 0 \<and> states_prev r \<noteq> Some START \<and> states_end r
              \<and> \<not> states_start r then
        (r\<lparr>states_prev := Some END\<rparr>, [(END, d)])
      else if states_prev r \<noteq> Some UPDATE \<and> states_set r then
        (r\<lparr>states_prev := Some SET\<rparr>, [(SET, d)])
      else (r, []))"

text \<open>Lines 177-181: the reset of the four flags.\<close>

definition resolve_reset :: "'v rstate \<Rightarrow> 'v rstate" where
  "resolve_reset r =
     r\<lparr>states_start := False, states_update := False, states_end := False,
       states_set := False\<rparr>"

definition resolve :: "'v jsval \<Rightarrow> 'v rstate \<Rightarrow> 'v rstate \<times> 'v emitted list" where
  "resolve d r =
     (let (r1, o1) = resolve_unlock (r\<lparr>resolveCalls := Suc (resolveCalls r)\<rparr>);
          (r2, o2) = resolve_first d r1;
          (r3, o3) = resolve_second d r2
      in (resolve_reset r3, o1 @ o2 @ o3))"

subsection \<open>delay (lines 184-197) and the handlers (lines 199-247)\<close>

definition delay :: "'v jsval \<Rightarrow> 'v rstate \<Rightarrow> 'v rstate \<times> 'v emitted list" where
  "delay d r =
     (let r1 = r\<lparr>cache := d, hasReceived := True\<rparr>;
          (r2, o2) = (if \<not> hasSentLock r1 then (r1\<lparr>hasSentLock := True\<rparr>, [(LOCK, None)])
                      else (r1, []))
      in if \<not> locked r2 \<and> hasTicked r2
         then (let (r3, o3) = resolve d r2 in (r3, o2 @ o3))
         else (r2, o2))"

text \<open>\<^verbatim>\<open>tick.on('tick', ...)\<close>, lines 199-204.\<close>

definition on_tick :: "'v rstate \<Rightarrow> 'v rstate \<times> 'v emitted list" where
  "on_tick r =
     (let r1 = r\<lparr>hasTicked := True\<rparr>
      in if \<not> locked r1 \<and> hasReceived r1 then resolve (cache r1) r1 else (r1, []))"

text \<open>\<^verbatim>\<open>tick.on('end tick', ...)\<close>, lines 206-209.\<close>

definition on_end_tick :: "'v rstate \<Rightarrow> 'v rstate" where
  "on_end_tick r = r\<lparr>hasTicked := False, hasReceived := False\<rparr>"

text \<open>The six handlers registered on \<^verbatim>\<open>this._eventInput\<close>, lines 211-247.\<close>

definition on_input ::
  "'v triggers option \<Rightarrow> etype \<Rightarrow> 'v jsval \<Rightarrow> 'v rstate \<Rightarrow> 'v rstate \<times> 'v emitted list" where
  "on_input trg t d r =
     (case t of
        SET \<Rightarrow> delay (transform trg SET d) (r\<lparr>states_set := True\<rparr>)
      | START \<Rightarrow>
          delay (transform trg START d)
            (r\<lparr>states_start := True, startCounter := startCounter r + 1\<rparr>)
      | END \<Rightarrow>
          delay (transform trg END d)
            (r\<lparr>states_end := True, startCounter := startCounter r - 1\<rparr>)
      | UPDATE \<Rightarrow> delay (transform trg UPDATE d) (r\<lparr>states_update := True\<rparr>)
      | LOCK \<Rightarrow> (r\<lparr>lockCounter := lockCounter r + 1, locked := True\<rparr>, [])
      | UNLOCK \<Rightarrow>
          (r\<lparr>lockCounter := lockCounter r - 1,
             locked := (if lockCounter r - 1 = 0 then False else locked r)\<rparr>, []))"

text \<open>
  What reaches one closure: an event on the Stream's input, or one of the two signals of
  the clock.
\<close>

datatype 'v signal = Input etype "'v jsval" | Tick | EndTick

fun rstep :: "'v triggers option \<Rightarrow> 'v signal \<Rightarrow> 'v rstate \<Rightarrow> 'v rstate \<times> 'v emitted list" where
  "rstep trg (Input t d) r = on_input trg t d r"
| "rstep trg Tick r = on_tick r"
| "rstep trg EndTick r = (on_end_tick r, [])"

fun rrun :: "'v triggers option \<Rightarrow> 'v signal list \<Rightarrow> 'v rstate \<Rightarrow> 'v rstate \<times> 'v emitted list" where
  "rrun trg [] r = (r, [])"
| "rrun trg (x # xs) r =
     (let (r1, o1) = rstep trg x r; (r2, o2) = rrun trg xs r1 in (r2, o1 @ o2))"

text \<open>The semantic events among the emitted ones: everything but Lock and Unlock.\<close>

definition semantic :: "'v emitted list \<Rightarrow> 'v emitted list" where
  "semantic out = filter (\<lambda>e. fst e \<noteq> LOCK \<and> fst e \<noteq> UNLOCK) out"

text \<open>
  Kinds of signal: a raw semantic event (Set, Start, Update or End on the input), a Lock
  or an Unlock received on the input, a raw End.
\<close>

fun is_raw :: "'v signal \<Rightarrow> bool" where
  "is_raw (Input t d) = (t = SET \<or> t = START \<or> t = UPDATE \<or> t = END)"
| "is_raw Tick = False"
| "is_raw EndTick = False"

fun is_lock :: "'v signal \<Rightarrow> bool" where
  "is_lock (Input t d) = (t = LOCK)"
| "is_lock Tick = False"
| "is_lock EndTick = False"

fun is_unlock :: "'v signal \<Rightarrow> bool" where
  "is_unlock (Input t d) = (t = UNLOCK)"
| "is_unlock Tick = False"
| "is_unlock EndTick = False"

fun is_raw_end :: "'v signal \<Rightarrow> bool" where
  "is_raw_end (Input t d) = (t = END)"
| "is_raw_end Tick = False"
| "is_raw_end EndTick = False"

text \<open>How many events of one type were emitted.\<close>

definition count_type :: "etype \<Rightarrow> 'v emitted list \<Rightarrow> nat" where
  "count_type t out = length (filter (\<lambda>e. fst e = t) out)"

section \<open>The Stream\<close>

text \<open>
  A source, as \<^verbatim>\<open>subscribe\<close> and \<^verbatim>\<open>unsubscribe\<close> read it: \<^verbatim>\<open>source._isActive\<close> and
  \<^verbatim>\<open>source.get()\<close>. Sources are objects, compared by identity: a source is named by a
  number, and a store gives the state of every source at the time of the call.
\<close>

record 'v source =
  isActive :: bool
  current :: "'v jsval"

type_synonym 'v sources = "nat \<Rightarrow> 'v source"

text \<open>
  A listener on \<^verbatim>\<open>this._eventInput\<close>: one of the four of \<^verbatim>\<open>createSimpleStrategy\<close>, or one
  of the six of the n-th call of \<^verbatim>\<open>createResolveStrategy\<close>, which reads and writes the
  variables of that call.
\<close>

datatype handler = Relay | Resolver nat

text \<open>
  The Stream object: \<^verbatim>\<open>_triggers\<close>, \<^verbatim>\<open>_numSources\<close>, the array \<^verbatim>\<open>_eventInput.upstream\<close>, the
  listeners of \<^verbatim>\<open>_eventInput\<close> by event type, the closures that the calls of
  \<^verbatim>\<open>createResolveStrategy\<close> have created so far, and the handlers these calls have registered
  on the clock \<^verbatim>\<open>tick\<close> (each named by the closure it belongs to).
\<close>

record 'v stream =
  triggers :: "'v triggers option"
  numSources :: int
  upstream :: "nat list"
  listeners :: "etype \<Rightarrow> handler list"
  closures :: "'v rstate list"
  tickHandlers :: "nat list"
  endTickHandlers :: "nat list"

text \<open>
  Modelled from the spec: \<^verbatim>\<open>EventHandler\<close>, the class of \<^verbatim>\<open>this._eventInput\<close>, is not among
  the sources. Section 4.1: \<^verbatim>\<open>on(eventKind, handler)\<close> registers a listener, \<^verbatim>\<open>off(kindList)\<close>
  removes all listeners for the given kinds, and \<^verbatim>\<open>trigger(kind, payload)\<close> synchronously
  invokes all matching handlers in subscription order (\<open>run_handlers\<close> below).
\<close>

definition eventInput_off :: "etype list \<Rightarrow> 'v stream \<Rightarrow> 'v stream" where
  "eventInput_off ts st = st\<lparr>listeners := (\<lambda>t. if t \<in> set ts then [] else listeners st t)\<rparr>"

definition eventInput_on :: "etype \<Rightarrow> handler \<Rightarrow> 'v stream \<Rightarrow> 'v stream" where
  "eventInput_on t h st = st\<lparr>listeners := (listeners st)(t := listeners st t @ [h])\<rparr>"

text \<open>\<^verbatim>\<open>createSimpleStrategy\<close>, lines 92-114.\<close>

definition createSimpleStrategy :: "'v stream \<Rightarrow> 'v stream" where
  "createSimpleStrategy st =
     eventInput_on END Relay (eventInput_on UPDATE Relay (eventInput_on START Relay
       (eventInput_on SET Relay
         (eventInput_off [START, UPDATE, END, SET, UNLOCK, LOCK] st))))"

text \<open>
  \<^verbatim>\<open>createResolveStrategy\<close>, lines 116-248: a fresh set of variables, one handler on each of
  the two signals of the clock (lines 199-209), six listeners on the input (lines 211-247).
\<close>

definition createResolveStrategy :: "'v stream \<Rightarrow> 'v stream" where
  "createResolveStrategy st =
     (let s1 = eventInput_off [START, UPDATE, END, SET] st;
          n = length (closures s1);
          s2 = s1\<lparr>closures := closures s1 @ [init_rstate],
                  tickHandlers := tickHandlers s1 @ [n],
                  endTickHandlers := endTickHandlers s1 @ [n]\<rparr>
      in eventInput_on UNLOCK (Resolver n) (eventInput_on LOCK (Resolver n)
           (eventInput_on UPDATE (Resolver n) (eventInput_on END (Resolver n)
             (eventInput_on START (Resolver n) (eventInput_on SET (Resolver n) s2))))))"

text \<open>The constructor, lines 63-87, without the filter, which passes none of the six types.\<close>

definition new_Stream :: "'v triggers option \<Rightarrow> 'v stream" where
  "new_Stream trg =
     createSimpleStrategy
       \<lparr> triggers = trg, numSources = 0, upstream = [], listeners = (\<lambda>t. []),
         closures = [], tickHandlers = [], endTickHandlers = [] \<rparr>"

text \<open>
  One listener called with an event. A listener of the simple strategy emits the event of
  its own type (lines 95-113); a listener of a closure is \<open>on_input\<close> on that closure.
\<close>

definition run_handler ::
  "handler \<Rightarrow> etype \<Rightarrow> 'v jsval \<Rightarrow> 'v stream \<Rightarrow> 'v stream \<times> 'v emitted list" where
  "run_handler h t d st =
     (case h of
        Relay \<Rightarrow> (st, [(t, transform (triggers st) t d)])
      | Resolver n \<Rightarrow>
          (if n < length (closures st)
           then (let (r, out) = on_input (triggers st) t d (closures st ! n)
                 in (st\<lparr>closures := (closures st)[n := r]\<rparr>, out))
           else (st, [])))"

fun run_handlers ::
  "handler list \<Rightarrow> etype \<Rightarrow> 'v jsval \<Rightarrow> 'v stream \<Rightarrow> 'v stream \<times> 'v emitted list" where
  "run_handlers [] t d st = (st, [])"
| "run_handlers (h # hs) t d st =
     (let (s1, o1) = run_handler h t d st; (s2, o2) = run_handlers hs t d s1 in (s2, o1 @ o2))"

text \<open>\<^verbatim>\<open>Stream.prototype.trigger\<close>, lines 287-289: the event goes to the input's listeners.\<close>

definition trigger :: "etype \<Rightarrow> 'v jsval \<Rightarrow> 'v stream \<Rightarrow> 'v stream \<times> 'v emitted list" where
  "trigger t d st = run_handlers (listeners st t) t d st"

text \<open>
  Modelled from the spec: the clock \<^verbatim>\<open>tick\<close> (\<^verbatim>\<open>../core/tick\<close>) is not among the sources.
  Sections 2 and 6: it emits \<^verbatim>\<open>'tick'\<close> and \<^verbatim>\<open>'end tick'\<close> with no payload, and every handler
  registered for the signal runs, in the order of registration.
\<close>

fun clock_tick :: "nat list \<Rightarrow> 'v stream \<Rightarrow> 'v stream \<times> 'v emitted list" where
  "clock_tick [] st = (st, [])"
| "clock_tick (n # ns) st =
     (let (s1, o1) = (if n < length (closures st)
                      then (let (r, out) = on_tick (closures st ! n)
                            in (st\<lparr>closures := (closures st)[n := r]\<rparr>, out))
                      else (st, []));
          (s2, o2) = clock_tick ns s1
      in (s2, o1 @ o2))"

fun clock_end_tick :: "nat list \<Rightarrow> 'v stream \<Rightarrow> 'v stream" where
  "clock_end_tick [] st = st"
| "clock_end_tick (n # ns) st =
     clock_end_tick ns
       (if n < length (closures st)
        then st\<lparr>closures := (closures st)[n := on_end_tick (closures st ! n)]\<rparr>
        else st)"

text \<open>One signal reaching the Stream, and a sequence of them.\<close>

fun sstep :: "'v signal \<Rightarrow> 'v stream \<Rightarrow> 'v stream \<times> 'v emitted list" where
  "sstep (Input t d) st = trigger t d st"
| "sstep Tick st = clock_tick (tickHandlers st) st"
| "sstep EndTick st = (clock_end_tick (endTickHandlers st) st, [])"

fun srun :: "'v signal list \<Rightarrow> 'v stream \<Rightarrow> 'v stream \<times> 'v emitted list" where
  "srun [] st = (st, [])"
| "srun (x # xs) st =
     (let (s1, o1) = sstep x st; (s2, o2) = srun xs s1 in (s2, o1 @ o2))"

text \<open>
  Modelled from the spec: \<^verbatim>\<open>EventHandler.prototype.subscribe\<close> and
  \<^verbatim>\<open>EventHandler.prototype.unsubscribe\<close>, applied to \<^verbatim>\<open>this._eventInput\<close>, are not among the
  sources. Sections 3 and 4.1: \<^verbatim>\<open>subscribe\<close> registers the source at the end of the ordered
  list of the currently subscribed sources and fails if that exact source is already
  subscribed; \<^verbatim>\<open>unsubscribe\<close> reverses it, removing the source from the list, and fails if
  the source is not subscribed. Both return whether they succeeded.
\<close>

definition eventInput_subscribe :: "nat \<Rightarrow> 'v stream \<Rightarrow> bool \<times> 'v stream" where
  "eventInput_subscribe src st =
     (if src \<in> set (upstream st) then (False, st)
      else (True, st\<lparr>upstream := upstream st @ [src]\<rparr>))"

definition eventInput_unsubscribe :: "nat \<Rightarrow> 'v stream \<Rightarrow> bool \<times> 'v stream" where
  "eventInput_unsubscribe src st =
     (if src \<in> set (upstream st) then (True, st\<lparr>upstream := remove1 src (upstream st)\<rparr>)
      else (False, st))"

text \<open>\<^verbatim>\<open>Stream.prototype.subscribe\<close>, lines 253-264.\<close>

definition subscribe ::
  "'v sources \<Rightarrow> nat \<Rightarrow> 'v stream \<Rightarrow> bool \<times> 'v stream \<times> 'v emitted list" where
  "subscribe env src st =
     (let (success, s1) = eventInput_subscribe src st
      in if success then
           (let s2 = s1\<lparr>numSources := numSources s1 + 1\<rparr>;
                s3 = (if numSources s2 = 2 then createResolveStrategy s2 else s2);
                (s4, out) = (if isActive (env src) then trigger START (current (env src)) s3
                             else (s3, []))
            in (success, s4, out))
         else (success, s1, []))"

text \<open>\<^verbatim>\<open>Stream.prototype.unsubscribe\<close> called with a source, lines 275-284.\<close>

definition unsubscribe_source ::
  "'v sources \<Rightarrow> nat \<Rightarrow> 'v stream \<Rightarrow> bool \<times> 'v stream \<times> 'v emitted list" where
  "unsubscribe_source env src st =
     (let (success, s1) = eventInput_unsubscribe src st
      in if success then
           (let (s2, out) = (if isActive (env src) then trigger END (current (env src)) s1
                             else (s1, []));
                s3 = s2\<lparr>numSources := numSources s2 - 1\<rparr>;
                s4 = (if numSources s3 = 1 then createSimpleStrategy s3 else s3)
            in (success, s4, out))
         else (success, s1, []))"

lemma run_handlers_upstream: "upstream (fst (run_handlers hs t d st)) = upstream st"
proof (induction hs arbitrary: st)
  case Nil
  then show ?case by simp
next
  case (Cons h hs)
  have "upstream (fst (run_handler h t d st)) = upstream st"
    by (simp add: run_handler_def Let_def split: handler.splits prod.splits)
  with Cons [of "fst (run_handler h t d st)"] show ?case
    by (simp add: split_def Let_def)
qed

lemma createSimpleStrategy_upstream: "upstream (createSimpleStrategy st) = upstream st"
  by (simp add: createSimpleStrategy_def eventInput_on_def eventInput_off_def)

lemma unsubscribe_source_upstream:
  "upstream (fst (snd (unsubscribe_source env src st))) = remove1 src (upstream st)"
  by (simp add: unsubscribe_source_def eventInput_unsubscribe_def Let_def split_def trigger_def
      run_handlers_upstream createSimpleStrategy_upstream remove1_idem)

text \<open>
  The loop of lines 268-271: \<^verbatim>\<open>i\<close> counts up while the array \<^verbatim>\<open>upstream\<close>, read again at
  every round, loses the source that the round unsubscribes.
\<close>

function unsubscribe_loop ::
  "'v sources \<Rightarrow> nat \<Rightarrow> 'v stream \<Rightarrow> 'v stream \<times> 'v emitted list" where
  "unsubscribe_loop env i st =
     (if i < length (upstream st)
      then (let res = unsubscribe_source env (upstream st ! i) st;
                rest = unsubscribe_loop env (i + 1) (fst (snd res))
            in (fst rest, snd (snd res) @ snd rest))
      else (st, []))"
  by pat_completeness auto
termination
proof (relation "measure (\<lambda>(env, i, st). length (upstream st) - i)")
  show "wf (measure (\<lambda>(env, i, st). length (upstream st) - i))" by simp
next
  fix env :: "'v sources" and i :: nat and st :: "'v stream" and res
  assume "i < length (upstream st)" "res = unsubscribe_source env (upstream st ! i) st"
  then show "((env, i + 1, fst (snd res)), env, i, st)
      \<in> measure (\<lambda>(env, i, st). length (upstream st) - i)"
    by (simp add: unsubscribe_source_upstream length_remove1)
qed

text \<open>\<^verbatim>\<open>Stream.prototype.unsubscribe\<close>, lines 266-285; \<open>None\<close> is the call with no source.\<close>

definition unsubscribe ::
  "'v sources \<Rightarrow> nat option \<Rightarrow> 'v stream \<Rightarrow> bool \<times> 'v stream \<times> 'v emitted list" where
  "unsubscribe env src st =
     (case src of
        None \<Rightarrow> (let (s, out) = unsubscribe_loop env 0 st in (True, s, out))
      | Some x \<Rightarrow> unsubscribe_source env x st)"

declare unsubscribe_loop.simps [simp del]

subsection \<open>Scenarios\<close>

text \<open>
  Stores for the examples: one where no source is active, one where every source is active
  with the same current value.
\<close>

definition idle :: "'v sources" where
  "idle = (\<lambda>n. \<lparr>isActive = False, current = None\<rparr>)"



text \<open>A new Stream to which the sources 0 and 1, both idle, have been subscribed in turn.\<close>

definition two_sources :: "'v triggers option \<Rightarrow> 'v stream" where
  "two_sources trg = fst (snd (subscribe idle 1 (fst (snd (subscribe idle 0 (new_Stream trg))))))"

text \<open>The elements at the odd positions of a list (the second, the fourth, ...).\<close>

fun odds :: "'a list \<Rightarrow> 'a list" where
  "odds (x # y # zs) = y # odds zs"
| "odds [x] = []"
| "odds [] = []"

section \<open>The decision list of the specification\<close>

text \<open>
  Section 4.4 of the specification gives the resolution as one ordered list of eight rules,
  the first matching rule winning. The definitions below follow its words, rule by rule,
  for comparison with \<open>resolve\<close>, which follows the source. Rule 2 emits nothing and
  rule 8 is the final "otherwise".
\<close>

definition spec_rule1 :: "'v rstate \<Rightarrow> bool" where
  "spec_rule1 r = (startCounter r = 0 \<and> states_update r \<and> states_end r)"

definition spec_rule2 :: "'v rstate \<Rightarrow> bool" where
  "spec_rule2 r = (states_prev r = Some START \<and> states_set r)"

definition spec_rule3 :: "'v rstate \<Rightarrow> bool" where
  "spec_rule3 r = (states_prev r \<noteq> Some UPDATE \<and> states_start r \<and> states_update r)"

definition spec_rules_4_to_8 :: "'v rstate \<Rightarrow> etype option" where
  "spec_rules_4_to_8 r =
     (if states_update r \<or> (states_start r \<and> states_end r) then Some UPDATE
      else if states_prev r \<noteq> Some UPDATE \<and> states_start r \<and> \<not> states_end r then Some START
      else if startCounter r = 0 \<and> states_prev r \<noteq> Some START \<and> states_end r
              \<and> \<not> states_start r then Some END
      else if states_prev r \<noteq> Some UPDATE \<and> states_set r then Some SET
      else None)"

definition spec_decision :: "'v rstate \<Rightarrow> etype option" where
  "spec_decision r =
     (if spec_rule1 r then Some UPDATE
      else if spec_rule2 r then None
      else if spec_rule3 r then Some START
      else spec_rules_4_to_8 r)"

text \<open>The kinds of the semantic events emitted, in order.\<close>

definition kinds :: "'v emitted list \<Rightarrow> etype list" where
  "kinds out = map fst (semantic out)"

section \<open>Properties of resolve\<close>

lemma resolve_flags:
  "states_set (fst (resolve d r)) = False"
  "states_start (fst (resolve d r)) = False"
  "states_update (fst (resolve d r)) = False"
  "states_end (fst (resolve d r)) = False"
  "hasSentLock (fst (resolve d r)) = False"
  by (simp_all add: resolve_def resolve_reset_def resolve_unlock_def resolve_first_def
      resolve_second_def Let_def split: prod.splits if_splits)

lemma resolve_quiet:
  assumes "\<not> states_set r" "\<not> states_start r" "\<not> states_update r" "\<not> states_end r"
    and "\<not> hasSentLock r"
  shows "snd (resolve d r) = []"
  using assms
  by (simp add: resolve_def resolve_reset_def resolve_unlock_def resolve_first_def
      resolve_second_def Let_def)

text \<open>
  C5. When \<^verbatim>\<open>resolve\<close> runs a second time on the state the first run left, with nothing
  received in between, the second run emits nothing at all (no semantic event and no
  Unlock), and the four pending flags are false when it starts.
\<close>

theorem resolve_twice_emits_nothing:
  "snd (resolve d2 (fst (resolve d1 r))) = []
   \<and> \<not> states_set (fst (resolve d1 r)) \<and> \<not> states_start (fst (resolve d1 r))
   \<and> \<not> states_update (fst (resolve d1 r)) \<and> \<not> states_end (fst (resolve d1 r))"
  by (simp add: resolve_quiet resolve_flags)

lemma semantic_append: "semantic (a @ b) = semantic a @ semantic b"
  by (simp add: semantic_def)

lemma resolve_out:
  "snd (resolve d r) =
     snd (resolve_unlock (r\<lparr>resolveCalls := Suc (resolveCalls r)\<rparr>))
     @ snd (resolve_first d (fst (resolve_unlock (r\<lparr>resolveCalls := Suc (resolveCalls r)\<rparr>))))
     @ snd (resolve_second d (fst (resolve_first d
          (fst (resolve_unlock (r\<lparr>resolveCalls := Suc (resolveCalls r)\<rparr>))))))"
  by (simp add: resolve_def Let_def split: prod.splits)

lemma resolve_unlock_semantic: "semantic (snd (resolve_unlock r)) = []"
  by (simp add: resolve_unlock_def semantic_def)

lemma resolve_unlock_fields:
  "states_set (fst (resolve_unlock r)) = states_set r"
  "states_start (fst (resolve_unlock r)) = states_start r"
  "states_update (fst (resolve_unlock r)) = states_update r"
  "states_end (fst (resolve_unlock r)) = states_end r"
  "states_prev (fst (resolve_unlock r)) = states_prev r"
  "startCounter (fst (resolve_unlock r)) = startCounter r"
  by (simp_all add: resolve_unlock_def)

lemma resolve_first_cases:
  "spec_rule1 r \<Longrightarrow>
     resolve_first d r = (r\<lparr>states_prev := Some UPDATE, states_update := False\<rparr>, [(UPDATE, d)])"
  "\<not> spec_rule1 r \<Longrightarrow> spec_rule2 r \<Longrightarrow> resolve_first d r = (r\<lparr>states_set := False\<rparr>, [])"
  "\<not> spec_rule1 r \<Longrightarrow> \<not> spec_rule2 r \<Longrightarrow> spec_rule3 r \<Longrightarrow>
     resolve_first d r = (r\<lparr>states_prev := Some START\<rparr>, [(START, d)])"
  "\<not> spec_rule1 r \<Longrightarrow> \<not> spec_rule2 r \<Longrightarrow> \<not> spec_rule3 r \<Longrightarrow> resolve_first d r = (r, [])"
  by (auto simp: resolve_first_def spec_rule1_def spec_rule2_def spec_rule3_def)

lemma resolve_second_spec:
  "snd (resolve_second d r) = (case spec_rules_4_to_8 r of None \<Rightarrow> [] | Some k \<Rightarrow> [(k, d)])"
  by (simp add: resolve_second_def spec_rules_4_to_8_def)

lemma semantic_second:
  "semantic (snd (resolve_second d r)) = snd (resolve_second d r)"
  by (simp add: resolve_second_def semantic_def)

lemma semantic_first:
  "semantic (snd (resolve_first d r)) = snd (resolve_first d r)"
  by (simp add: resolve_first_def semantic_def)

lemma kinds_resolve:
  "kinds (snd (resolve d r)) =
     (if spec_rule1 r then [UPDATE, if states_start r then UPDATE else END]
      else if spec_rule2 r then
        (case spec_rules_4_to_8 (r\<lparr>states_set := False\<rparr>) of None \<Rightarrow> [] | Some k \<Rightarrow> [k])
      else if spec_rule3 r then [START, UPDATE]
      else (case spec_decision r of None \<Rightarrow> [] | Some k \<Rightarrow> [k]))"
proof -
  define r1 where "r1 = fst (resolve_unlock (r\<lparr>resolveCalls := Suc (resolveCalls r)\<rparr>))"
  have f: "states_set r1 = states_set r" "states_start r1 = states_start r"
    "states_update r1 = states_update r" "states_end r1 = states_end r"
    "states_prev r1 = states_prev r" "startCounter r1 = startCounter r"
    by (simp_all add: r1_def resolve_unlock_fields)
  have rules: "spec_rule1 r1 = spec_rule1 r" "spec_rule2 r1 = spec_rule2 r"
    "spec_rule3 r1 = spec_rule3 r"
    by (simp_all add: spec_rule1_def spec_rule2_def spec_rule3_def f)
  have out: "kinds (snd (resolve d r)) =
      map fst (snd (resolve_first d r1)) @ map fst (snd (resolve_second d (fst (resolve_first d r1))))"
    by (simp add: kinds_def resolve_out semantic_append resolve_unlock_semantic semantic_first
        semantic_second r1_def)
  consider (a) "spec_rule1 r" | (b) "\<not> spec_rule1 r" "spec_rule2 r"
    | (c) "\<not> spec_rule1 r" "\<not> spec_rule2 r" "spec_rule3 r"
    | (d) "\<not> spec_rule1 r" "\<not> spec_rule2 r" "\<not> spec_rule3 r"
    by blast
  then show ?thesis
  proof cases
    case a
    then have u: "startCounter r = 0" "states_update r" "states_end r"
      by (simp_all add: spec_rule1_def)
    from a have "resolve_first d r1 =
        (r1\<lparr>states_prev := Some UPDATE, states_update := False\<rparr>, [(UPDATE, d)])"
      by (simp add: resolve_first_cases rules)
    with a u show ?thesis
      by (simp add: out resolve_second_spec spec_rules_4_to_8_def f)
  next
    case b
    then have "resolve_first d r1 = (r1\<lparr>states_set := False\<rparr>, [])"
      by (simp add: resolve_first_cases rules)
    moreover have "spec_rules_4_to_8 (r1\<lparr>states_set := False\<rparr>)
        = spec_rules_4_to_8 (r\<lparr>states_set := False\<rparr>)"
      by (simp add: spec_rules_4_to_8_def f)
    ultimately show ?thesis using b
      by (simp add: out resolve_second_spec split: option.splits)
  next
    case c
    then have u: "states_prev r \<noteq> Some UPDATE" "states_start r" "states_update r"
      by (simp_all add: spec_rule3_def)
    from c have "resolve_first d r1 = (r1\<lparr>states_prev := Some START\<rparr>, [(START, d)])"
      by (simp add: resolve_first_cases rules)
    with c u show ?thesis
      by (simp add: out resolve_second_spec spec_rules_4_to_8_def f)
  next
    case d
    then have "resolve_first d r1 = (r1, [])"
      by (simp add: resolve_first_cases rules)
    moreover have "spec_rules_4_to_8 r1 = spec_rules_4_to_8 r"
      by (simp add: spec_rules_4_to_8_def f)
    ultimately show ?thesis using d
      by (simp add: out resolve_second_spec spec_decision_def split: option.splits)
  qed
qed

lemma first_len: "length (snd (resolve_first d r)) \<le> 1"
  by (simp add: resolve_first_def)

lemma second_len: "length (snd (resolve_second d r)) \<le> 1"
  by (simp add: resolve_second_def)

lemma first_payload: "map snd (snd (resolve_first d r)) = replicate (length (snd (resolve_first d r))) d"
  by (simp add: resolve_first_def)

lemma second_payload: "map snd (snd (resolve_second d r)) = replicate (length (snd (resolve_second d r))) d"
  by (simp add: resolve_second_def)

lemma semantic_resolve:
  "semantic (snd (resolve d r)) =
     snd (resolve_first d (fst (resolve_unlock (r\<lparr>resolveCalls := Suc (resolveCalls r)\<rparr>))))
     @ snd (resolve_second d (fst (resolve_first d
          (fst (resolve_unlock (r\<lparr>resolveCalls := Suc (resolveCalls r)\<rparr>))))))"
  by (simp add: resolve_out semantic_append resolve_unlock_semantic semantic_first semantic_second)

lemma len_resolve: "length (semantic (snd (resolve d r))) \<le> 2"
  using first_len [of d "fst (resolve_unlock (r\<lparr>resolveCalls := Suc (resolveCalls r)\<rparr>))"]
    second_len [of d "fst (resolve_first d
          (fst (resolve_unlock (r\<lparr>resolveCalls := Suc (resolveCalls r)\<rparr>))))"]
  by (simp add: semantic_resolve)

lemma payload_resolve:
  "map snd (semantic (snd (resolve d r))) = replicate (length (semantic (snd (resolve d r)))) d"
  by (simp add: semantic_resolve first_payload second_payload replicate_add)

text \<open>
  C1, as the code has it. One call of \<^verbatim>\<open>resolve\<close> runs two chains one after the other,
  so it emits at most two semantic events, each carrying the payload passed to it. When
  rule 1 matches it emits Update and then a second event (Update when a Start is pending,
  End otherwise). When rule 2 matches (and rule 1 does not) it clears the pending Set and
  then emits what rules 4 to 8 select. When rule 3 matches (and rules 1 and 2 do not) it
  emits Start and then Update. When none of rules 1 to 3 matches it emits exactly what the
  decision list selects: nothing or one event.
\<close>

theorem resolve_emits_by_two_chains:
  "length (semantic (snd (resolve d r))) \<le> 2
   \<and> map snd (semantic (snd (resolve d r))) = replicate (length (semantic (snd (resolve d r)))) d
   \<and> kinds (snd (resolve d r)) =
     (if spec_rule1 r then [UPDATE, if states_start r then UPDATE else END]
      else if spec_rule2 r then
        (case spec_rules_4_to_8 (r\<lparr>states_set := False\<rparr>) of None \<Rightarrow> [] | Some k \<Rightarrow> [k])
      else if spec_rule3 r then [START, UPDATE]
      else (case spec_decision r of None \<Rightarrow> [] | Some k \<Rightarrow> [k]))"
  using len_resolve [of d r] payload_resolve [of d r] kinds_resolve [of d r] by blast

text \<open>
  C1 as stated fails: a Start and an Update received before the tick make \<^verbatim>\<open>resolve\<close>
  emit two semantic events, Start and then Update, where the decision list selects the
  single kind Start (rule 3).
\<close>

theorem resolve_two_events_counterexample:
  "length (semantic (snd (resolve (Some 2)
      (fst (rrun None [Input START (Some (1::nat)), Input UPDATE (Some 2)] init_rstate))))) = 2
   \<and> kinds (snd (resolve (Some 2)
      (fst (rrun None [Input START (Some (1::nat)), Input UPDATE (Some 2)] init_rstate))))
     = [START, UPDATE]
   \<and> spec_decision
      (fst (rrun None [Input START (Some (1::nat)), Input UPDATE (Some 2)] init_rstate))
     = Some START"
  by (simp add: resolve_def resolve_reset_def resolve_unlock_def resolve_first_def
      resolve_second_def Let_def kinds_def semantic_def init_rstate_def on_input_def delay_def
      transform_def spec_decision_def spec_rule1_def spec_rule2_def spec_rule3_def)

section \<open>Locking, accumulation and the reset\<close>

lemma count_type_append: "count_type t (a @ b) = count_type t a + count_type t b"
  by (simp add: count_type_def)

lemma count_type_single: "count_type t [(k, d)] = (if k = t then 1 else 0)"
  by (simp add: count_type_def)

lemma count_type_Nil: "count_type t [] = 0"
  by (simp add: count_type_def)

lemma resolve_frame:
  "locked (fst (resolve d r)) = locked r"
  "lockCounter (fst (resolve d r)) = lockCounter r"
  "hasTicked (fst (resolve d r)) = hasTicked r"
  "hasReceived (fst (resolve d r)) = hasReceived r"
  "startCounter (fst (resolve d r)) = startCounter r"
  "cache (fst (resolve d r)) = cache r"
  "resolveCalls (fst (resolve d r)) = Suc (resolveCalls r)"
  by (simp_all add: resolve_def resolve_reset_def resolve_unlock_def resolve_first_def
      resolve_second_def Let_def split: prod.splits if_splits)

lemma hasSentLock_same: "hasSentLock r \<Longrightarrow> r\<lparr>hasSentLock := True\<rparr> = r"
  by (cases r) simp

lemma delay_deferred:
  "locked r \<or> \<not> hasTicked r \<Longrightarrow>
   delay d r = (r\<lparr>cache := d, hasReceived := True, hasSentLock := True\<rparr>,
                if hasSentLock r then [] else [(LOCK, None)])"
  by (cases "hasSentLock r") (auto simp: delay_def Let_def hasSentLock_same)

lemma delay_immediate:
  "\<not> locked r \<Longrightarrow> hasTicked r \<Longrightarrow>
   delay d r = (fst (resolve d (r\<lparr>cache := d, hasReceived := True, hasSentLock := True\<rparr>)),
                (if hasSentLock r then [] else [(LOCK, None)])
                @ snd (resolve d (r\<lparr>cache := d, hasReceived := True, hasSentLock := True\<rparr>)))"
  by (cases "hasSentLock r") (auto simp: delay_def Let_def hasSentLock_same split: prod.splits)

lemma delay_frame:
  "locked (fst (delay d r)) = locked r"
  "lockCounter (fst (delay d r)) = lockCounter r"
  "hasTicked (fst (delay d r)) = hasTicked r"
  by (cases "locked r \<or> \<not> hasTicked r"; simp add: delay_deferred delay_immediate resolve_frame)+

lemma delay_calls:
  "resolveCalls (fst (delay d r)) =
     (if locked r \<or> \<not> hasTicked r then resolveCalls r else Suc (resolveCalls r))"
  by (cases "locked r \<or> \<not> hasTicked r"; simp add: delay_deferred delay_immediate resolve_frame)

lemma on_tick_calls:
  "resolveCalls (fst (on_tick r)) =
     (if locked r \<or> \<not> hasReceived r then resolveCalls r else Suc (resolveCalls r))"
  by (auto simp: on_tick_def Let_def resolve_frame)

lemma on_tick_quiet: "locked r \<or> \<not> hasReceived r \<Longrightarrow> on_tick r = (r\<lparr>hasTicked := True\<rparr>, [])"
  by (auto simp: on_tick_def Let_def)

lemma on_tick_frame:
  "locked (fst (on_tick r)) = locked r"
  "lockCounter (fst (on_tick r)) = lockCounter r"
  by (auto simp: on_tick_def Let_def resolve_frame)

lemma on_input_raw:
  "t = SET \<or> t = START \<or> t = UPDATE \<or> t = END \<Longrightarrow>
   \<exists>r'. on_input trg t d r = delay (transform trg t d) r'
        \<and> locked r' = locked r \<and> lockCounter r' = lockCounter r \<and> hasTicked r' = hasTicked r
        \<and> hasSentLock r' = hasSentLock r \<and> resolveCalls r' = resolveCalls r
        \<and> (states_end r' = (states_end r \<or> t = END))"
  by (auto simp: on_input_def)

lemma rstep_locked_frame:
  "\<not> is_lock x \<Longrightarrow> \<not> is_unlock x \<Longrightarrow>
   locked (fst (rstep trg x r)) = locked r \<and> lockCounter (fst (rstep trg x r)) = lockCounter r"
proof (cases x)
  case (Input t d)
  assume "\<not> is_lock x" "\<not> is_unlock x"
  with Input have "t = SET \<or> t = START \<or> t = UPDATE \<or> t = END"
    by (cases t) simp_all
  from on_input_raw [OF this, of trg d r] Input show ?thesis
    by (auto simp: delay_frame)
qed (simp_all add: on_tick_frame on_end_tick_def)

lemma rstep_lock_inv:
  assumes "0 < lockCounter r \<longrightarrow> locked r"
  shows "(0 < lockCounter (fst (rstep trg x r)) \<longrightarrow> locked (fst (rstep trg x r)))
    \<and> lockCounter (fst (rstep trg x r)) =
        lockCounter r + (if is_lock x then 1 else 0) - (if is_unlock x then 1 else 0)"
proof (cases "is_lock x \<or> is_unlock x")
  case True
  then obtain t d where x: "x = Input t d" "t = LOCK \<or> t = UNLOCK"
    by (cases x) auto
  with assms show ?thesis
    by (auto simp: on_input_def)
next
  case False
  with assms rstep_locked_frame [of x trg r] show ?thesis
    by simp
qed

lemma rrun_lock_inv:
  "(0 < lockCounter r \<longrightarrow> locked r) \<Longrightarrow>
   (0 < lockCounter (fst (rrun trg sigs r)) \<longrightarrow> locked (fst (rrun trg sigs r)))
    \<and> lockCounter (fst (rrun trg sigs r)) =
        lockCounter r + int (length (filter is_lock sigs)) - int (length (filter is_unlock sigs))"
proof (induction sigs arbitrary: r)
  case Nil
  then show ?case by simp
next
  case (Cons x xs)
  from rstep_lock_inv [OF Cons.prems, of trg x]
  have a: "0 < lockCounter (fst (rstep trg x r)) \<longrightarrow> locked (fst (rstep trg x r))"
    and b: "lockCounter (fst (rstep trg x r)) =
        lockCounter r + (if is_lock x then 1 else 0) - (if is_unlock x then 1 else 0)"
    by simp_all
  from Cons.IH [OF a] b show ?case
    by (simp add: split_def Let_def)
qed

lemma semantic_resolve_locked_step:
  "locked r \<Longrightarrow>
   resolveCalls (fst (rstep trg x r)) = resolveCalls r \<and> semantic (snd (rstep trg x r)) = []"
proof (cases x)
  case (Input t d)
  assume l: "locked r"
  show ?thesis
  proof (cases "t = LOCK \<or> t = UNLOCK")
    case True
    with Input show ?thesis by (auto simp: on_input_def semantic_def)
  next
    case False
    then have "t = SET \<or> t = START \<or> t = UPDATE \<or> t = END" by (cases t) simp_all
    from on_input_raw [OF this, of trg d r] obtain r' where
      r': "on_input trg t d r = delay (transform trg t d) r'" "locked r' = locked r"
        "resolveCalls r' = resolveCalls r"
      by blast
    with l Input show ?thesis
      by (simp add: delay_deferred semantic_def)
  qed
next
  case Tick
  assume "locked r"
  with Tick show ?thesis by (simp add: on_tick_quiet semantic_def)
next
  case EndTick
  then show ?thesis by (simp add: on_end_tick_def semantic_def)
qed

text \<open>
  C3. From a fresh closure, after any sequence of signals in which more Locks than Unlocks
  were received on the input, the next signal, whatever it is (a clock tick, a raw event,
  anything else), does not run \<^verbatim>\<open>resolve\<close> and emits no semantic event.
\<close>

theorem no_resolve_while_locked:
  assumes "length (filter is_unlock sigs) < length (filter is_lock sigs)"
  shows "resolveCalls (fst (rstep trg x (fst (rrun trg sigs init_rstate))))
           = resolveCalls (fst (rrun trg sigs init_rstate))
         \<and> semantic (snd (rstep trg x (fst (rrun trg sigs init_rstate)))) = []"
proof -
  have "0 < lockCounter (init_rstate :: 'a rstate) \<longrightarrow> locked (init_rstate :: 'a rstate)"
    by (simp add: init_rstate_def)
  from rrun_lock_inv [OF this, of trg sigs] assms
  have "locked (fst (rrun trg sigs init_rstate))"
    by (simp add: init_rstate_def)
  then show ?thesis
    by (rule semantic_resolve_locked_step)
qed

theorem no_resolve_while_locked_witness:
  "length (filter is_unlock [Input LOCK None, Input START (Some (1::nat))])
     < length (filter is_lock [Input LOCK None, Input START (Some (1::nat))])
   \<and> resolveCalls (fst (rstep None Tick
        (fst (rrun None [Input LOCK None, Input START (Some (1::nat))] init_rstate))))
      = resolveCalls (fst (rrun None [Input LOCK None, Input START (Some (1::nat))] init_rstate))
   \<and> semantic (snd (rstep None Tick
        (fst (rrun None [Input LOCK None, Input START (Some (1::nat))] init_rstate)))) = []"
  using no_resolve_while_locked [of "[Input LOCK None, Input START (Some (1::nat))]" None Tick]
  by simp

lemma rstep_no_resolve:
  assumes "resolveCalls (fst (rstep trg x r)) = resolveCalls r"
  shows "snd (rstep trg x r) = (if is_raw x \<and> \<not> hasSentLock r then [(LOCK, None)] else [])
    \<and> hasSentLock (fst (rstep trg x r)) = (hasSentLock r \<or> is_raw x)"
proof (cases x)
  case (Input t d)
  show ?thesis
  proof (cases "t = LOCK \<or> t = UNLOCK")
    case True
    with Input show ?thesis by (auto simp: on_input_def)
  next
    case False
    then have raw: "t = SET \<or> t = START \<or> t = UPDATE \<or> t = END" by (cases t) simp_all
    from on_input_raw [OF this, of trg d r] obtain r' where
      r': "on_input trg t d r = delay (transform trg t d) r'" "locked r' = locked r"
        "hasTicked r' = hasTicked r" "hasSentLock r' = hasSentLock r"
        "resolveCalls r' = resolveCalls r"
      by blast
    with assms Input have "locked r' \<or> \<not> hasTicked r'"
      by (simp add: delay_calls split: if_splits)
    from delay_deferred [OF this] r' Input raw show ?thesis
      by auto
  qed
next
  case Tick
  with assms have "locked r \<or> \<not> hasReceived r"
    by (simp add: on_tick_calls split: if_splits)
  with Tick show ?thesis by (simp add: on_tick_quiet)
next
  case EndTick
  then show ?thesis by (simp add: on_end_tick_def)
qed

lemma rstep_calls_mono: "resolveCalls r \<le> resolveCalls (fst (rstep trg x r))"
proof (cases x)
  case (Input t d)
  show ?thesis
  proof (cases "t = LOCK \<or> t = UNLOCK")
    case True
    with Input show ?thesis by (auto simp: on_input_def)
  next
    case False
    then have "t = SET \<or> t = START \<or> t = UPDATE \<or> t = END" by (cases t) simp_all
    from on_input_raw [OF this, of trg d r] obtain r' where
      "on_input trg t d r = delay (transform trg t d) r'" "resolveCalls r' = resolveCalls r"
      by blast
    with Input show ?thesis by (simp add: delay_calls)
  qed
qed (simp_all add: on_tick_calls on_end_tick_def)

lemma rrun_calls_mono: "resolveCalls r \<le> resolveCalls (fst (rrun trg sigs r))"
proof (induction sigs arbitrary: r)
  case Nil
  then show ?case by simp
next
  case (Cons x xs)
  from rstep_calls_mono [of r trg x] Cons [of "fst (rstep trg x r)"] show ?case
    by (simp add: split_def Let_def)
qed

lemma rrun_accumulate:
  "resolveCalls (fst (rrun trg sigs r)) = resolveCalls r \<Longrightarrow>
   snd (rrun trg sigs r) = (if list_ex is_raw sigs \<and> \<not> hasSentLock r then [(LOCK, None)] else [])
    \<and> hasSentLock (fst (rrun trg sigs r)) = (hasSentLock r \<or> list_ex is_raw sigs)"
proof (induction sigs arbitrary: r)
  case Nil
  then show ?case by simp
next
  case (Cons x xs)
  let ?r1 = "fst (rstep trg x r)"
  from Cons.prems have e: "resolveCalls (fst (rrun trg xs ?r1)) = resolveCalls r"
    by (simp add: split_def Let_def)
  with rstep_calls_mono [of r trg x] rrun_calls_mono [of ?r1 trg xs]
  have s1: "resolveCalls ?r1 = resolveCalls r" by simp
  with e have "resolveCalls (fst (rrun trg xs ?r1)) = resolveCalls ?r1" by simp
  from Cons.IH [OF this] rstep_no_resolve [OF s1] show ?case
    by (auto simp: split_def Let_def)
qed

lemma unlock_counts:
  "count_type UNLOCK (snd (resolve_unlock r)) = (if hasSentLock r then 1 else 0)"
  "count_type LOCK (snd (resolve_unlock r)) = 0"
  "count_type END (snd (resolve_unlock r)) = 0"
  by (simp_all add: count_type_def resolve_unlock_def)

lemma first_counts:
  "count_type UNLOCK (snd (resolve_first d r)) = 0"
  "count_type LOCK (snd (resolve_first d r)) = 0"
  "count_type END (snd (resolve_first d r)) = 0"
  "states_end (fst (resolve_first d r)) = states_end r"
  by (simp_all add: count_type_def resolve_first_def)

lemma second_counts:
  "count_type UNLOCK (snd (resolve_second d r)) = 0"
  "count_type LOCK (snd (resolve_second d r)) = 0"
  "\<not> states_end r \<Longrightarrow> count_type END (snd (resolve_second d r)) = 0"
  by (simp_all add: count_type_def resolve_second_def)

lemma resolve_lock_counts:
  "count_type UNLOCK (snd (resolve d r)) = (if hasSentLock r then 1 else 0)"
  "count_type LOCK (snd (resolve d r)) = 0"
  by (simp_all add: resolve_out count_type_append unlock_counts first_counts second_counts)

text \<open>
  C4. Take a closure that has no Lock outstanding (as right after a \<^verbatim>\<open>resolve\<close>, or
  fresh) and any sequence of signals during which \<^verbatim>\<open>resolve\<close> does not run. While they
  accumulate, one Lock is emitted if a raw event is among them and none otherwise, and no
  Unlock; the \<^verbatim>\<open>resolve\<close> that follows emits as many Unlocks as Locks were emitted, emits
  no Lock, and leaves no Lock outstanding.
\<close>

theorem lock_unlock_balance:
  assumes "\<not> hasSentLock r"
    and "resolveCalls (fst (rrun trg sigs r)) = resolveCalls r"
  shows "count_type LOCK (snd (rrun trg sigs r)) = (if list_ex is_raw sigs then 1 else 0)
    \<and> count_type UNLOCK (snd (rrun trg sigs r)) = 0
    \<and> count_type UNLOCK (snd (resolve d (fst (rrun trg sigs r))))
        = count_type LOCK (snd (rrun trg sigs r))
    \<and> count_type LOCK (snd (resolve d (fst (rrun trg sigs r)))) = 0
    \<and> \<not> hasSentLock (fst (resolve d (fst (rrun trg sigs r))))"
  using rrun_accumulate [OF assms(2)] assms(1)
  by (simp add: resolve_lock_counts resolve_flags count_type_Nil count_type_single)

theorem lock_unlock_balance_witness:
  "\<not> hasSentLock (init_rstate :: nat rstate)
   \<and> resolveCalls (fst (rrun None [Input START (Some 1), Input UPDATE (Some 2)] (init_rstate :: nat rstate)))
      = resolveCalls (init_rstate :: nat rstate)
   \<and> count_type LOCK (snd (rrun None [Input START (Some 1), Input UPDATE (Some 2)] (init_rstate :: nat rstate))) = 1
   \<and> count_type UNLOCK (snd (resolve (Some 2)
        (fst (rrun None [Input START (Some 1), Input UPDATE (Some 2)] (init_rstate :: nat rstate))))) = 1"
proof -
  have a: "\<not> hasSentLock (init_rstate :: nat rstate)"
    by (simp add: init_rstate_def)
  have b: "resolveCalls (fst (rrun None [Input START (Some 1), Input UPDATE (Some 2)] (init_rstate :: nat rstate)))
      = resolveCalls (init_rstate :: nat rstate)"
    by (simp add: init_rstate_def on_input_def delay_def)
  from lock_unlock_balance [OF a b, of "Some 2"] a b show ?thesis
    by simp
qed

lemma resolve_no_end:
  "\<not> states_end r \<Longrightarrow> count_type END (snd (resolve d r)) = 0"
  by (simp add: resolve_out count_type_append unlock_counts first_counts second_counts
      resolve_unlock_fields)

lemma delay_no_end:
  "\<not> states_end r \<Longrightarrow>
     \<not> states_end (fst (delay d r)) \<and> count_type END (snd (delay d r)) = 0"
  by (cases "locked r \<or> \<not> hasTicked r")
     (simp_all add: delay_deferred delay_immediate resolve_flags resolve_no_end
        count_type_append count_type_Nil count_type_single)

lemma rstep_no_end:
  assumes "\<not> states_end r" "\<not> is_raw_end x"
  shows "\<not> states_end (fst (rstep trg x r)) \<and> count_type END (snd (rstep trg x r)) = 0"
proof (cases x)
  case (Input t d)
  show ?thesis
  proof (cases "t = LOCK \<or> t = UNLOCK")
    case True
    with Input assms show ?thesis by (auto simp: on_input_def count_type_Nil)
  next
    case False
    then have "t = SET \<or> t = START \<or> t = UPDATE \<or> t = END" by (cases t) simp_all
    from on_input_raw [OF this, of trg d r] obtain r' where
      r': "on_input trg t d r = delay (transform trg t d) r'"
        "states_end r' = (states_end r \<or> t = END)"
      by blast
    with assms Input have "\<not> states_end r'" by simp
    from delay_no_end [OF this] r' Input show ?thesis by simp
  qed
next
  case Tick
  with assms show ?thesis
    by (auto simp: on_tick_def Let_def resolve_flags resolve_no_end count_type_Nil)
next
  case EndTick
  with assms show ?thesis by (simp add: on_end_tick_def count_type_Nil)
qed

lemma rrun_no_end:
  "\<not> states_end r \<Longrightarrow> list_all (\<lambda>x. \<not> is_raw_end x) sigs \<Longrightarrow>
   \<not> states_end (fst (rrun trg sigs r)) \<and> count_type END (snd (rrun trg sigs r)) = 0"
proof (induction sigs arbitrary: r)
  case Nil
  then show ?case by (simp add: count_type_Nil)
next
  case (Cons x xs)
  from Cons.prems have "\<not> is_raw_end x" "list_all (\<lambda>x. \<not> is_raw_end x) xs" by simp_all
  from rstep_no_end [OF Cons.prems(1) this(1), of trg] Cons.IH [OF _ this(2), of "fst (rstep trg x r)"]
  show ?case
    by (simp add: split_def Let_def count_type_append)
qed

text \<open>
  C10. Every \<^verbatim>\<open>resolve\<close> leaves the four pending flags false, whatever it emitted; and
  from the state it leaves, no sequence of signals without a raw End makes the closure
  emit an End.
\<close>

theorem resolve_resets_pending_flags:
  assumes "list_all (\<lambda>x. \<not> is_raw_end x) sigs"
  shows "\<not> states_set (fst (resolve d r)) \<and> \<not> states_start (fst (resolve d r))
    \<and> \<not> states_update (fst (resolve d r)) \<and> \<not> states_end (fst (resolve d r))
    \<and> count_type END (snd (rrun trg sigs (fst (resolve d r)))) = 0"
  using rrun_no_end [OF _ assms, of "fst (resolve d r)" trg]
  by (simp add: resolve_flags)

theorem resolve_resets_pending_flags_witness:
  "list_all (\<lambda>x. \<not> is_raw_end x) [EndTick, Tick, Input UPDATE (Some (2::nat)), Tick]
   \<and> kinds (snd (resolve (Some 1)
        (fst (rrun None [Input START (Some 1), Input END (Some 1)] (init_rstate :: nat rstate))))) = [UPDATE]
   \<and> \<not> states_end (fst (resolve (Some 1)
        (fst (rrun None [Input START (Some 1), Input END (Some 1)] (init_rstate :: nat rstate)))))
   \<and> count_type END (snd (rrun None [EndTick, Tick, Input UPDATE (Some 2), Tick]
        (fst (resolve (Some 1)
          (fst (rrun None [Input START (Some 1), Input END (Some 1)] (init_rstate :: nat rstate))))))) = 0"
proof -
  have a: "list_all (\<lambda>x. \<not> is_raw_end x) [EndTick, Tick, Input UPDATE (Some (2::nat)), Tick]"
    by simp
  have b: "kinds (snd (resolve (Some 1)
        (fst (rrun None [Input START (Some (1::nat)), Input END (Some 1)] (init_rstate :: nat rstate))))) = [UPDATE]"
    by (simp add: kinds_resolve spec_rule1_def spec_rule2_def spec_rule3_def spec_decision_def
        spec_rules_4_to_8_def init_rstate_def on_input_def delay_def)
  from resolve_resets_pending_flags [OF a, of "Some 1"
      "fst (rrun None [Input START (Some 1), Input END (Some 1)] (init_rstate :: nat rstate))" None] a b
  show ?thesis by blast
qed

section \<open>Subscription, strategy switches and the clock\<close>

lemma new_Stream_fields:
  "triggers (new_Stream trg) = trg" "numSources (new_Stream trg) = 0"
  "upstream (new_Stream trg) = []" "closures (new_Stream trg) = []"
  "tickHandlers (new_Stream trg) = []" "endTickHandlers (new_Stream trg) = []"
  "listeners (new_Stream trg) t = (if t = LOCK \<or> t = UNLOCK then [] else [Relay])"
  by (cases t; simp add: new_Stream_def createSimpleStrategy_def eventInput_on_def eventInput_off_def)+

lemma createResolveStrategy_fields:
  "triggers (createResolveStrategy st) = triggers st"
  "numSources (createResolveStrategy st) = numSources st"
  "upstream (createResolveStrategy st) = upstream st"
  "closures (createResolveStrategy st) = closures st @ [init_rstate]"
  "tickHandlers (createResolveStrategy st) = tickHandlers st @ [length (closures st)]"
  "endTickHandlers (createResolveStrategy st) = endTickHandlers st @ [length (closures st)]"
  "listeners (createResolveStrategy st) t =
     (if t = LOCK \<or> t = UNLOCK then listeners st t else []) @ [Resolver (length (closures st))]"
  by (cases t; simp add: createResolveStrategy_def eventInput_on_def eventInput_off_def Let_def)+

lemma createSimpleStrategy_fields:
  "triggers (createSimpleStrategy st) = triggers st"
  "numSources (createSimpleStrategy st) = numSources st"
  "upstream (createSimpleStrategy st) = upstream st"
  "closures (createSimpleStrategy st) = closures st"
  "tickHandlers (createSimpleStrategy st) = tickHandlers st"
  "endTickHandlers (createSimpleStrategy st) = endTickHandlers st"
  "listeners (createSimpleStrategy st) t = (if t = LOCK \<or> t = UNLOCK then [] else [Relay])"
  by (cases t; simp add: createSimpleStrategy_def eventInput_on_def eventInput_off_def)+

lemma two_sources_fields:
  "triggers (two_sources trg) = trg" "numSources (two_sources trg) = 2"
  "upstream (two_sources trg) = [0, 1]" "closures (two_sources trg) = [init_rstate]"
  "tickHandlers (two_sources trg) = [0]" "endTickHandlers (two_sources trg) = [0]"
  "listeners (two_sources trg) t = [Resolver 0]"
  by (simp_all add: two_sources_def subscribe_def eventInput_subscribe_def idle_def Let_def
      new_Stream_fields createResolveStrategy_fields)


lemma trigger_resolver:
  "listeners st t = [Resolver n] \<Longrightarrow> n < length (closures st) \<Longrightarrow>
   trigger t d st =
     (st\<lparr>closures := (closures st)[n := fst (on_input (triggers st) t d (closures st ! n))]\<rparr>,
      snd (on_input (triggers st) t d (closures st ! n)))"
  by (simp add: trigger_def run_handler_def split_def Let_def)

lemma sstep_single:
  assumes "\<forall>t. listeners st t = [Resolver 0]" "tickHandlers st = [0]"
    "endTickHandlers st = [0]" "closures st = [r]"
  shows "sstep x st =
     (st\<lparr>closures := [fst (rstep (triggers st) x r)]\<rparr>, snd (rstep (triggers st) x r))"
proof (cases x)
  case (Input t d)
  from assms have "listeners st t = [Resolver 0]" "0 < length (closures st)" by simp_all
  from trigger_resolver [OF this] Input assms(4) show ?thesis by simp
next
  case Tick
  with assms show ?thesis by (simp add: split_def Let_def)
next
  case EndTick
  with assms show ?thesis by simp
qed

lemma srun_single:
  "\<forall>t. listeners st t = [Resolver 0] \<Longrightarrow> tickHandlers st = [0] \<Longrightarrow>
   endTickHandlers st = [0] \<Longrightarrow> closures st = [r] \<Longrightarrow>
   srun sigs st =
     (st\<lparr>closures := [fst (rrun (triggers st) sigs r)]\<rparr>, snd (rrun (triggers st) sigs r))"
proof (induction sigs arbitrary: st r)
  case Nil
  then show ?case by simp
next
  case (Cons x xs)
  let ?s1 = "st\<lparr>closures := [fst (rstep (triggers st) x r)]\<rparr>"
  have step: "sstep x st = (?s1, snd (rstep (triggers st) x r))"
    using Cons.prems by (rule sstep_single)
  have "srun xs ?s1 =
     (?s1\<lparr>closures := [fst (rrun (triggers ?s1) xs (fst (rstep (triggers st) x r)))]\<rparr>,
      snd (rrun (triggers ?s1) xs (fst (rstep (triggers st) x r))))"
    using Cons.prems by (intro Cons.IH) simp_all
  with step show ?case by (simp add: split_def Let_def)
qed

lemma two_sources_run:
  "srun sigs (two_sources trg) =
     ((two_sources trg)\<lparr>closures := [fst (rrun trg sigs init_rstate)]\<rparr>,
      snd (rrun trg sigs init_rstate))"
  using srun_single [of "two_sources trg" init_rstate sigs]
  by (simp add: two_sources_fields)

lemma two_sources_run_step:
  "sstep x (fst (srun sigs (two_sources trg))) =
     ((two_sources trg)\<lparr>closures := [fst (rstep trg x (fst (rrun trg sigs init_rstate)))]\<rparr>,
      snd (rstep trg x (fst (rrun trg sigs init_rstate))))"
  using sstep_single [of "fst (srun sigs (two_sources trg))" "fst (rrun trg sigs init_rstate)" x]
  by (simp add: two_sources_run two_sources_fields)

lemmas eval_defs = on_input_def delay_def on_tick_def on_end_tick_def resolve_def resolve_unlock_def
  resolve_first_def resolve_second_def resolve_reset_def init_rstate_def transform_def Let_def

lemma scenario_tick1:
  "rrun None [Input START a, Tick, EndTick] init_rstate =
     (init_rstate\<lparr>startCounter := 1, states_prev := Some START, cache := a, resolveCalls := 1\<rparr>,
      [(LOCK, None), (UNLOCK, None), (START, a)])"
  by (simp add: eval_defs)

lemma scenario_five:
  "rrun None [Input START a, Tick, EndTick, Input UPDATE b, Input START c] init_rstate =
     (init_rstate\<lparr>startCounter := 2, states_prev := Some START, cache := c, resolveCalls := 1,
        states_update := True, states_start := True, hasReceived := True, hasSentLock := True\<rparr>,
      [(LOCK, None), (UNLOCK, None), (START, a), (LOCK, None)])"
  by (simp add: eval_defs)

lemma scenario_second_tick:
  "snd (sstep Tick (fst (srun [Input START a, Tick, EndTick, Input UPDATE b, Input START c]
      (two_sources None)))) = [(UNLOCK, None), (START, c), (UPDATE, c)]"
  unfolding two_sources_run_step scenario_five
  by (simp add: eval_defs)

text \<open>
  C2, as the code has it. A Stream with two subscribed sources; payloads \<open>a\<close>, \<open>b\<close>, \<open>c\<close>.
  Tick 1: the first source emits Start(\<open>a\<close>), and at the tick the Stream emits Start(\<open>a\<close>);
  its previously emitted kind is then Start. Next cycle: Update(\<open>b\<close>) and Start(\<open>c\<close>) arrive
  before the tick, and \<^verbatim>\<open>resolve\<close> does not run in between. At the tick the Stream emits two
  semantic events: Start(\<open>c\<close>) and then Update(\<open>c\<close>).
\<close>

theorem two_sources_start_then_update:
  "semantic (snd (srun [Input START a, Tick, EndTick] (two_sources None))) = [(START, a)]
   \<and> map states_prev (closures (fst (srun [Input START a, Tick, EndTick] (two_sources None))))
      = [Some START]
   \<and> map resolveCalls (closures (fst (srun [Input START a, Tick, EndTick] (two_sources None))))
      = [1]
   \<and> map resolveCalls (closures (fst (srun
        [Input START a, Tick, EndTick, Input UPDATE b, Input START c] (two_sources None))))
      = [1]
   \<and> semantic (snd (sstep Tick (fst (srun
        [Input START a, Tick, EndTick, Input UPDATE b, Input START c] (two_sources None)))))
      = [(START, c), (UPDATE, c)]"
  by (simp only: scenario_second_tick)
     (simp only: two_sources_run scenario_tick1 scenario_five, simp add: semantic_def init_rstate_def)

text \<open>
  C2 as stated fails: with the payloads 1, 2 and 10 of the scenario, the second tick emits
  Start(10) followed by Update(10), not Start(10) alone.
\<close>

theorem two_sources_single_start_counterexample:
  "semantic (snd (sstep Tick (fst (srun
        [Input START (Some (1::nat)), Tick, EndTick, Input UPDATE (Some 2), Input START (Some 10)]
        (two_sources None)))))
      = [(START, Some 10), (UPDATE, Some 10)]
   \<and> semantic (snd (sstep Tick (fst (srun
        [Input START (Some (1::nat)), Tick, EndTick, Input UPDATE (Some 2), Input START (Some 10)]
        (two_sources None)))))
      \<noteq> [(START, Some 10)]"
  unfolding scenario_second_tick
  by (simp add: semantic_def)














lemma run_handler_frame:
  "triggers (fst (run_handler h t d st)) = triggers st"
  "numSources (fst (run_handler h t d st)) = numSources st"
  "listeners (fst (run_handler h t d st)) = listeners st"
  "tickHandlers (fst (run_handler h t d st)) = tickHandlers st"
  "endTickHandlers (fst (run_handler h t d st)) = endTickHandlers st"
  by (simp_all add: run_handler_def Let_def split: handler.splits prod.splits)

lemma run_handlers_frame:
  "triggers (fst (run_handlers hs t d st)) = triggers st
   \<and> numSources (fst (run_handlers hs t d st)) = numSources st
   \<and> listeners (fst (run_handlers hs t d st)) = listeners st
   \<and> tickHandlers (fst (run_handlers hs t d st)) = tickHandlers st
   \<and> endTickHandlers (fst (run_handlers hs t d st)) = endTickHandlers st"
proof (induction hs arbitrary: st)
  case Nil
  then show ?case by simp
next
  case (Cons h hs)
  from Cons [of "fst (run_handler h t d st)"] show ?case
    by (simp add: split_def Let_def run_handler_frame)
qed

lemma trigger_frame:
  "triggers (fst (trigger t d st)) = triggers st"
  "numSources (fst (trigger t d st)) = numSources st"
  "listeners (fst (trigger t d st)) = listeners st"
  "tickHandlers (fst (trigger t d st)) = tickHandlers st"
  "endTickHandlers (fst (trigger t d st)) = endTickHandlers st"
  "upstream (fst (trigger t d st)) = upstream st"
  using run_handlers_frame [of "listeners st t" t d st]
  by (simp_all add: trigger_def run_handlers_upstream)

lemma unsubscribe_source_clock:
  "tickHandlers (fst (snd (unsubscribe_source env src st))) = tickHandlers st"
  "endTickHandlers (fst (snd (unsubscribe_source env src st))) = endTickHandlers st"
  by (simp_all add: unsubscribe_source_def eventInput_unsubscribe_def Let_def split_def
      trigger_frame createSimpleStrategy_fields)

lemma unsubscribe_loop_clock:
  "tickHandlers (fst (unsubscribe_loop env i st)) = tickHandlers st
   \<and> endTickHandlers (fst (unsubscribe_loop env i st)) = endTickHandlers st"
proof (induction env i st rule: unsubscribe_loop.induct)
  case (1 env i st)
  show ?case
  proof (cases "i < length (upstream st)")
    case True
    from 1 [OF True refl] True show ?thesis
      by (simp add: unsubscribe_loop.simps [of env i st] Let_def unsubscribe_source_clock)
  next
    case False
    then show ?thesis by (simp add: unsubscribe_loop.simps [of env i st])
  qed
qed

lemma unsubscribe_clock:
  "tickHandlers (fst (snd (unsubscribe env src st))) = tickHandlers st"
  "endTickHandlers (fst (snd (unsubscribe env src st))) = endTickHandlers st"
  by (simp_all add: unsubscribe_def split_def Let_def unsubscribe_loop_clock unsubscribe_source_clock
      split: option.splits)

text \<open>
  C8, as the code has it. Each call of \<^verbatim>\<open>createResolveStrategy\<close> registers exactly one
  handler on \<^verbatim>\<open>'tick'\<close> and one on \<^verbatim>\<open>'end tick'\<close>. Nothing deregisters them:
  \<^verbatim>\<open>createSimpleStrategy\<close> and \<^verbatim>\<open>unsubscribe\<close> leave both lists of handlers as they are, so
  the handlers accumulate, one of each per activation.
\<close>

theorem clock_handlers_accumulate:
  "tickHandlers (createResolveStrategy st) = tickHandlers st @ [length (closures st)]
   \<and> endTickHandlers (createResolveStrategy st) = endTickHandlers st @ [length (closures st)]
   \<and> tickHandlers (createSimpleStrategy st) = tickHandlers st
   \<and> endTickHandlers (createSimpleStrategy st) = endTickHandlers st
   \<and> tickHandlers (fst (snd (unsubscribe env src st))) = tickHandlers st
   \<and> endTickHandlers (fst (snd (unsubscribe env src st))) = endTickHandlers st"
  by (simp add: createResolveStrategy_fields createSimpleStrategy_fields unsubscribe_clock)

lemma unsubscribe_second_of_two:
  "unsubscribe idle (Some 1) (two_sources trg) =
     (True, createSimpleStrategy ((two_sources trg)\<lparr>upstream := [0], numSources := 1\<rparr>), [])"
  by (simp add: unsubscribe_def unsubscribe_source_def eventInput_unsubscribe_def
      two_sources_fields idle_def Let_def)

text \<open>
  C8 as stated fails: after the second of two sources is unsubscribed the Stream is back
  under the simple strategy with one source, and the two handlers of the clock are still
  registered; subscribing the source again registers a second pair.
\<close>

theorem clock_handlers_survive_revert_counterexample:
  "numSources (fst (snd (unsubscribe idle (Some 1) (two_sources (None :: nat triggers option))))) = 1
   \<and> listeners (fst (snd (unsubscribe idle (Some 1) (two_sources (None :: nat triggers option))))) START
       = [Relay]
   \<and> tickHandlers (fst (snd (unsubscribe idle (Some 1) (two_sources (None :: nat triggers option)))))
       = [0]
   \<and> endTickHandlers (fst (snd (unsubscribe idle (Some 1) (two_sources (None :: nat triggers option)))))
       = [0]
   \<and> tickHandlers (fst (snd (subscribe idle 1
        (fst (snd (unsubscribe idle (Some 1) (two_sources (None :: nat triggers option))))))))
       = [0, 1]
   \<and> endTickHandlers (fst (snd (subscribe idle 1
        (fst (snd (unsubscribe idle (Some 1) (two_sources (None :: nat triggers option))))))))
       = [0, 1]"
  unfolding unsubscribe_second_of_two
  by (simp add: createSimpleStrategy_fields two_sources_fields subscribe_def
      eventInput_subscribe_def idle_def Let_def createResolveStrategy_fields)











lemma remove1_nth_distinct:
  assumes "distinct xs" "i < length xs"
  shows "remove1 (xs ! i) xs = take i xs @ drop (Suc i) xs"
proof -
  have xs: "xs = take i xs @ xs ! i # drop (Suc i) xs"
    using assms(2) by (rule id_take_nth_drop)
  with assms(1) have "distinct (take i xs @ xs ! i # drop (Suc i) xs)" by simp
  then have "xs ! i \<notin> set (take i xs)" by auto
  then have "remove1 (xs ! i) (take i xs @ xs ! i # drop (Suc i) xs) = take i xs @ drop (Suc i) xs"
    by (simp add: remove1_append)
  with xs show ?thesis by simp
qed

lemma odds_step:
  assumes "i < length xs"
  shows "take (Suc i) (take i xs @ drop (Suc i) xs) @ odds (drop (Suc i) (take i xs @ drop (Suc i) xs))
    = take i xs @ odds (drop i xs)"
proof (cases "drop (Suc i) xs")
  case Nil
  then have "length xs = Suc i" using assms by simp
  then have "drop i xs = [xs ! i]"
    by (metis Nil assms Cons_nth_drop_Suc)
  with Nil show ?thesis by simp
next
  case (Cons y zs)
  have "drop i xs = xs ! i # y # zs"
    using Cons assms by (metis Cons_nth_drop_Suc)
  with Cons assms show ?thesis by simp
qed

lemma unsubscribe_source_distinct:
  "distinct (upstream st) \<Longrightarrow> distinct (upstream (fst (snd (unsubscribe_source env src st))))"
  by (simp add: unsubscribe_source_upstream)

lemma unsubscribe_loop_upstream:
  "distinct (upstream st) \<Longrightarrow>
   upstream (fst (unsubscribe_loop env i st)) = take i (upstream st) @ odds (drop i (upstream st))"
proof (induction env i st rule: unsubscribe_loop.induct)
  case (1 env i st)
  show ?case
  proof (cases "i < length (upstream st)")
    case True
    let ?s1 = "fst (snd (unsubscribe_source env (upstream st ! i) st))"
    have u: "upstream ?s1 = take i (upstream st) @ drop (Suc i) (upstream st)"
      using "1.prems" True by (simp add: unsubscribe_source_upstream remove1_nth_distinct)
    have "distinct (upstream ?s1)"
      using "1.prems" by (rule unsubscribe_source_distinct)
    from "1.IH" [OF True refl this]
    have "upstream (fst (unsubscribe_loop env (i + 1) ?s1))
        = take (Suc i) (upstream ?s1) @ odds (drop (Suc i) (upstream ?s1))"
      by simp
    with u odds_step [OF True] True show ?thesis
      by (simp add: unsubscribe_loop.simps [of env i st] Let_def)
  next
    case False
    then show ?thesis by (simp add: unsubscribe_loop.simps [of env i st])
  qed
qed

lemma unsubscribe_all_upstream:
  "distinct (upstream st) \<Longrightarrow>
   fst (unsubscribe env None st) = True
   \<and> upstream (fst (snd (unsubscribe env None st))) = odds (upstream st)"
  using unsubscribe_loop_upstream [of st env 0]
  by (simp add: unsubscribe_def split_def)

text \<open>
  C9 fails on the code: on a Stream with the two sources 0 and 1, \<^verbatim>\<open>unsubscribe()\<close>
  returns true and leaves source 1 subscribed. The loop of lines 268-271 advances its index
  over an array that shrinks; in general it leaves the sources at the odd positions
  subscribed (\<open>unsubscribe_all_upstream\<close>).
\<close>

theorem unsubscribe_all_skips_second_source:
  "upstream (two_sources trg) = [0, 1]
   \<and> fst (unsubscribe env None (two_sources trg)) = True
   \<and> upstream (fst (snd (unsubscribe env None (two_sources trg)))) = [1]"
  using unsubscribe_all_upstream [of "two_sources trg" env]
  by (simp add: two_sources_fields)

section \<open>Further properties\<close>

lemma rstep_balance:
  "count_type LOCK (snd (rstep trg x r)) + (if hasSentLock r then 1 else 0)
   = count_type UNLOCK (snd (rstep trg x r)) + (if hasSentLock (fst (rstep trg x r)) then 1 else 0)"
proof (cases x)
  case (Input t d)
  show ?thesis
  proof (cases "t = LOCK \<or> t = UNLOCK")
    case True
    with Input show ?thesis by (auto simp: on_input_def count_type_Nil)
  next
    case False
    then have "t = SET \<or> t = START \<or> t = UPDATE \<or> t = END" by (cases t) simp_all
    from on_input_raw [OF this, of trg d r] obtain r' where
      r': "on_input trg t d r = delay (transform trg t d) r'" "hasSentLock r' = hasSentLock r"
      by blast
    have "count_type LOCK (snd (delay (transform trg t d) r')) + (if hasSentLock r' then 1 else 0)
        = count_type UNLOCK (snd (delay (transform trg t d) r'))
          + (if hasSentLock (fst (delay (transform trg t d) r')) then 1 else 0)"
      by (cases "locked r' \<or> \<not> hasTicked r'")
         (simp_all add: delay_deferred delay_immediate count_type_append count_type_Nil
            count_type_single resolve_lock_counts resolve_flags)
    with r' Input show ?thesis by simp
  qed
next
  case Tick
  then show ?thesis
    by (cases "locked r \<or> \<not> hasReceived r")
       (auto simp: on_tick_quiet on_tick_def Let_def count_type_Nil resolve_lock_counts resolve_flags)
next
  case EndTick
  then show ?thesis by (simp add: on_end_tick_def count_type_Nil)
qed

lemma rrun_balance:
  "count_type LOCK (snd (rrun trg sigs r)) + (if hasSentLock r then 1 else 0)
   = count_type UNLOCK (snd (rrun trg sigs r)) + (if hasSentLock (fst (rrun trg sigs r)) then 1 else 0)"
proof (induction sigs arbitrary: r)
  case Nil
  then show ?case by (simp add: count_type_Nil)
next
  case (Cons x xs)
  from rstep_balance [of trg x r] Cons [of "fst (rstep trg x r)"] show ?case
    by (simp add: split_def Let_def count_type_append)
qed

text \<open>
  Over any run of a closure from its fresh state, the Locks emitted are the Unlocks emitted
  plus the one Lock still outstanding, if any: no Lock is left without its Unlock once a
  \<^verbatim>\<open>resolve\<close> has run.
\<close>

theorem locks_balance_unlocks:
  "count_type LOCK (snd (rrun trg sigs init_rstate))
   = count_type UNLOCK (snd (rrun trg sigs init_rstate))
     + (if hasSentLock (fst (rrun trg sigs init_rstate)) then 1 else 0)"
  using rrun_balance [of trg sigs init_rstate]
  by (simp add: init_rstate_def)

text \<open>
  \<^verbatim>\<open>unsubscribe()\<close> with no argument, on any Stream whose upstream list has no repetition,
  returns true and leaves subscribed exactly the sources at the odd positions of the list.
\<close>

theorem unsubscribe_all_keeps_odd_positions:
  assumes "distinct (upstream st)"
  shows "fst (unsubscribe env None st) = True
    \<and> upstream (fst (snd (unsubscribe env None st))) = odds (upstream st)"
  using assms by (rule unsubscribe_all_upstream)

theorem unsubscribe_all_keeps_odd_positions_witness:
  "distinct (upstream (two_sources (None :: nat triggers option)))
   \<and> odds (upstream (two_sources (None :: nat triggers option))) = [1]
   \<and> upstream (fst (snd (unsubscribe idle None (two_sources (None :: nat triggers option))))) = [1]"
proof -
  have a: "distinct (upstream (two_sources (None :: nat triggers option)))"
    by (simp add: two_sources_fields)
  have b: "odds (upstream (two_sources (None :: nat triggers option))) = [1]"
    by (simp add: two_sources_fields)
  from unsubscribe_all_keeps_odd_positions [OF a, of idle] a b show ?thesis
    by simp
qed

end
